theory Spec2Isabelle
  imports Complex_Main "HOL-Library.AList" "HOL-Library.Char_ord" "HOL-Library.List_Lexorder" "HOL-Library.Multiset" "HOL-Library.Option_ord"
begin

section \<open>The record store (db.py)\<close>

text \<open>
  The five relations of \<^verbatim>\<open>SCHEMA_SQL\<close>. A table is the list of its rows in rowid order.
  TEXT columns are byte strings, nullable columns are options, the INTEGER flag
  \<^verbatim>\<open>is_me\<close> (only ever 0 or 1) is a bool, REAL columns are reals. The columns
  \<^verbatim>\<open>created_at\<close> and \<^verbatim>\<open>parsed_at\<close> and the row ids of aliases, game_players and
  chat_messages are never read by the program and are left out.
\<close>

record player_row =
  p_id :: nat
  p_name :: string
  is_me :: bool

record alias_row =
  a_player_id :: nat
  alt_name :: string

text \<open>The dictionary built by \<^verbatim>\<open>_build_game_data\<close>; a games row is that plus its id.\<close>

record game_data =
  replay_file :: string
  played_at :: "string option"
  duration_seconds :: "real option"
  duration_text :: "string option"
  map_name :: "string option"
  map_tileset :: "string option"
  game_type :: "string option"
  winner_name :: "string option"
  loser_name :: "string option"
  winner_race :: "string option"
  loser_race :: "string option"
  my_result :: string

record game_row = game_data +
  g_id :: nat

record game_player_row =
  gp_game_id :: nat
  gp_player_id :: nat
  gp_race :: "string option"
  gp_is_winner :: bool
  gp_apm :: real

record chat_row =
  c_game_id :: nat
  c_player_id :: nat
  c_message :: "string option"
  c_game_time :: string
  c_frame :: int

record database =
  players :: "player_row list"
  aliases :: "alias_row list"
  games :: "game_row list"
  game_players :: "game_player_row list"
  chat_messages :: "chat_row list"

definition empty_db :: database where
  "empty_db = \<lparr>players = [], aliases = [], games = [], game_players = [], chat_messages = []\<rparr>"

text \<open>
  \<^verbatim>\<open>INTEGER PRIMARY KEY AUTOINCREMENT\<close>: the new rowid is one more than the largest
  one used so far. The program never deletes a row, so that is the largest one present.
\<close>

definition next_id :: "nat list \<Rightarrow> nat" where
  "next_id ids = Suc (fold max ids 0)"

text \<open>\<^verbatim>\<open>fetchone()\<close>: the first row of a result, or nothing.\<close>

definition fetchone :: "'a list \<Rightarrow> 'a option" where
  "fetchone rows = (case rows of [] \<Rightarrow> None | r # _ \<Rightarrow> Some r)"

definition get_or_create_player :: "database \<Rightarrow> string \<Rightarrow> nat \<times> database" where
  "get_or_create_player db name =
     (case fetchone [p_id p. p \<leftarrow> players db, p_name p = name] of
        Some i \<Rightarrow> (i, db)
      | None \<Rightarrow>
          (case fetchone [a_player_id a. a \<leftarrow> aliases db, alt_name a = name] of
             Some i \<Rightarrow> (i, db)
           | None \<Rightarrow>
               (let i = next_id (map p_id (players db)) in
                (i, db\<lparr>players := players db @ [\<lparr>p_id = i, p_name = name, is_me = False\<rparr>]\<rparr>))))"


definition get_my_names :: "database \<Rightarrow> string list" where
  "get_my_names db = [p_name p. p \<leftarrow> players db, is_me p]"

text \<open>\<^verbatim>\<open>INSERT OR IGNORE\<close>: a row whose alt_name is already there is dropped silently.\<close>

definition add_alias :: "database \<Rightarrow> string \<Rightarrow> string \<Rightarrow> database" where
  "add_alias db player_name alt =
     (case get_or_create_player db player_name of
        (player_id, db1) \<Rightarrow>
          if alt \<in> set (map alt_name (aliases db1)) then db1
          else db1\<lparr>aliases := aliases db1 @ [\<lparr>a_player_id = player_id, alt_name = alt\<rparr>]\<rparr>)"

definition resolve_player_name :: "database \<Rightarrow> string \<Rightarrow> string" where
  "resolve_player_name db name =
     (case fetchone [p_name p. a \<leftarrow> aliases db, alt_name a = name,
                               p \<leftarrow> players db, p_id p = a_player_id a] of
        Some n \<Rightarrow> n
      | None \<Rightarrow> name)"

definition game_exists :: "database \<Rightarrow> string \<Rightarrow> bool" where
  "game_exists db file = (fetchone [g. g \<leftarrow> games db, replay_file g = file] \<noteq> None)"

text \<open>
  The constraints the schema enforces on a stored state: unique ids, unique player names,
  unique alt names, unique replay files, and every alias pointing at a player.
\<close>

definition wf_db :: "database \<Rightarrow> bool" where
  "wf_db db \<longleftrightarrow>
     distinct (map p_id (players db)) \<and>
     distinct (map p_name (players db)) \<and>
     distinct (map alt_name (aliases db)) \<and>
     distinct (map replay_file (games db)) \<and>
     distinct (map g_id (games db)) \<and>
     list_all (\<lambda>a. a_player_id a \<in> set (map p_id (players db))) (aliases db)"

subsection \<open>Games\<close>

datatype error = IntegrityError | OSError

text \<open>
  \<^verbatim>\<open>insert_game\<close>: the UNIQUE constraint on \<^verbatim>\<open>replay_file\<close> makes the INSERT raise
  \<^verbatim>\<open>sqlite3.IntegrityError\<close>; \<^verbatim>\<open>_connect\<close> rolls the unit of work back and re-raises.
\<close>

definition insert_game :: "database \<Rightarrow> game_data \<Rightarrow> (error + nat) \<times> database" where
  "insert_game db gd =
     (if replay_file gd \<in> set (map replay_file (games db)) then (Inl IntegrityError, db)
      else (let i = next_id (map g_id (games db)) in
            (Inr i, db\<lparr>games := games db @ [game_data.extend gd \<lparr>g_id = i\<rparr>]\<rparr>)))"

definition insert_game_player ::
    "database \<Rightarrow> nat \<Rightarrow> nat \<Rightarrow> string option \<Rightarrow> bool \<Rightarrow> real \<Rightarrow> database" where
  "insert_game_player db game_id player_id race is_winner apm =
     db\<lparr>game_players := game_players db @
          [\<lparr>gp_game_id = game_id, gp_player_id = player_id, gp_race = race,
            gp_is_winner = is_winner, gp_apm = apm\<rparr>]\<rparr>"

definition insert_chat_message ::
    "database \<Rightarrow> nat \<Rightarrow> nat \<Rightarrow> string option \<Rightarrow> string \<Rightarrow> int \<Rightarrow> database" where
  "insert_chat_message db game_id player_id message game_time frame =
     db\<lparr>chat_messages := chat_messages db @
          [\<lparr>c_game_id = game_id, c_player_id = player_id, c_message = message,
            c_game_time = game_time, c_frame = frame\<rparr>]\<rparr>"

subsection \<open>Queries\<close>

text \<open>
  \<^verbatim>\<open>ORDER BY played_at DESC\<close>. SQLite compares TEXT bytewise and puts NULL below every
  value, which is the order of \<^typ>\<open>string option\<close> with \<open>None\<close> least. Rows of equal key
  keep their rowid order (SQL leaves their order open; no theorem below depends on it).
\<close>

definition order_by_desc :: "('a \<Rightarrow> 'k::linorder) \<Rightarrow> 'a list \<Rightarrow> 'a list" where
  "order_by_desc key rows = rev (sort_key key (rev rows))"

text \<open>\<^verbatim>\<open>x in my_names\<close> for a nullable column: \<^verbatim>\<open>None\<close> is in no set of names.\<close>

definition in_names :: "string option \<Rightarrow> string set \<Rightarrow> bool" where
  "in_names x names = (case x of None \<Rightarrow> False | Some n \<Rightarrow> n \<in> names)"

record vs_record =
  opponent :: string
  wins :: nat
  losses :: nat
  total :: nat
  vs_games :: "(game_row \<times> string) list"


text \<open>The \<^verbatim>\<open>for row in rows\<close> loop of \<^verbatim>\<open>get_record_vs\<close>, on (wins, losses, games).\<close>

fun record_loop :: "string set \<Rightarrow> string \<Rightarrow> game_row list \<Rightarrow>
    nat \<times> nat \<times> (game_row \<times> string) list \<Rightarrow> nat \<times> nat \<times> (game_row \<times> string) list" where
  "record_loop my_names resolved [] acc = acc"
| "record_loop my_names resolved (game # rows) (w, l, out) =
     (if in_names (winner_name game) my_names \<and> loser_name game = Some resolved
      then record_loop my_names resolved rows (w + 1, l, out @ [(game, ''win'')])
      else if in_names (loser_name game) my_names \<and> winner_name game = Some resolved
      then record_loop my_names resolved rows (w, l + 1, out @ [(game, ''loss'')])
      else record_loop my_names resolved rows (w, l, out @ [(game, ''unknown'')]))"

definition get_record_vs :: "database \<Rightarrow> string \<Rightarrow> vs_record" where
  "get_record_vs db opponent_name =
     (let resolved = resolve_player_name db opponent_name;
          rows = order_by_desc played_at
                   [g. g \<leftarrow> games db, winner_name g = Some resolved \<or> loser_name g = Some resolved];
          my_names = set (get_my_names db)
      in case record_loop my_names resolved rows (0, 0, []) of
           (w, l, out) \<Rightarrow>
             \<lparr>opponent = resolved, wins = w, losses = l, total = w + l, vs_games = out\<rparr>)"

record stat =
  s_wins :: nat
  s_losses :: nat
  s_last_played :: "string option"

record summary =
  sm_opponent :: string
  sm_wins :: nat
  sm_losses :: nat
  sm_total :: nat
  sm_last_played :: "string option"

text \<open>Python truthiness of a nullable string: neither \<^verbatim>\<open>None\<close> nor empty.\<close>

definition truthy :: "string option \<Rightarrow> bool" where
  "truthy x = (case x of None \<Rightarrow> False | Some n \<Rightarrow> n \<noteq> [])"

text \<open>
  The branch of \<^verbatim>\<open>get_all_opponents\<close> that picks the opponent and the result of one game
  (\<open>True\<close> for a win); \<open>None\<close> is \<^verbatim>\<open>continue\<close>.
\<close>

definition opponent_of :: "string set \<Rightarrow> game_row \<Rightarrow> (string \<times> bool) option" where
  "opponent_of my_names game =
     (if in_names (winner_name game) my_names \<and> truthy (loser_name game)
         \<and> \<not> in_names (loser_name game) my_names
      then (case loser_name game of Some n \<Rightarrow> Some (n, True) | None \<Rightarrow> None)
      else if in_names (loser_name game) my_names \<and> truthy (winner_name game)
         \<and> \<not> in_names (winner_name game) my_names
      then (case winner_name game of Some n \<Rightarrow> Some (n, False) | None \<Rightarrow> None)
      else None)"

text \<open>
  The dictionary \<^verbatim>\<open>stats\<close> is an association list in insertion order, as a Python
  dict is. One pass of the loop body:
\<close>

definition stats_step :: "string set \<Rightarrow> (string \<times> stat) list \<Rightarrow> game_row \<Rightarrow> (string \<times> stat) list" where
  "stats_step my_names stats game =
     (case opponent_of my_names game of
        None \<Rightarrow> stats
      | Some (opp, is_win) \<Rightarrow>
          (let s0 = (case map_of stats opp of
                       None \<Rightarrow> \<lparr>s_wins = 0, s_losses = 0, s_last_played = None\<rparr>
                     | Some s \<Rightarrow> s);
               s1 = (if is_win then s0\<lparr>s_wins := s_wins s0 + 1\<rparr>
                     else s0\<lparr>s_losses := s_losses s0 + 1\<rparr>);
               s2 = (if s_last_played s1 = None then s1\<lparr>s_last_played := played_at game\<rparr>
                     else s1)
           in AList.update opp s2 stats))"

definition get_all_opponents :: "database \<Rightarrow> summary list" where
  "get_all_opponents db =
     (let my_names = set (get_my_names db) in
      if my_names = {} then []
      else
        (let rows = order_by_desc played_at (games db);
             stats = foldl (stats_step my_names) [] rows
         in [\<lparr>sm_opponent = name, sm_wins = s_wins s, sm_losses = s_losses s,
               sm_total = s_wins s + s_losses s, sm_last_played = s_last_played s\<rparr>.
             (name, s) \<leftarrow> sort_key fst stats]))"

text \<open>
  \<^verbatim>\<open>SELECT x AS name, COUNT(*) FROM games WHERE x IS NOT NULL GROUP BY x\<close>: one row per
  distinct non-null value of the column, in the order of the values.
\<close>

definition group_count :: "string option list \<Rightarrow> (string \<times> nat) list" where
  "group_count column =
     (let names = [n. Some n \<leftarrow> column]
      in [(n, count_list names n). n \<leftarrow> sort (remdups names)])"

text \<open>
  The two grouped selects are joined by \<^verbatim>\<open>UNION ALL\<close> and the result is ordered by
  \<^verbatim>\<open>count DESC\<close>; nothing sums the two rows of a name that has both won and lost.
\<close>

definition get_player_name_counts :: "database \<Rightarrow> (string \<times> nat) list" where
  "get_player_name_counts db =
     order_by_desc snd
       (group_count (map winner_name (games db)) @ group_count (map loser_name (games db)))"

section \<open>The ingestion pipeline (record_manager.py)\<close>

text \<open>
  What the replay decoder (\<^verbatim>\<open>SCReplayParser\<close>, an external package) leaves behind after
  \<^verbatim>\<open>parse()\<close>: \<^verbatim>\<open>game_info\<close>, \<^verbatim>\<open>map_data\<close>, \<^verbatim>\<open>players\<close>, \<^verbatim>\<open>player_stats\<close> and
  \<^verbatim>\<open>chat_messages\<close>. A dictionary key read with \<^verbatim>\<open>.get\<close> is an option; so is a name,
  which the decoder may leave null.
\<close>

record participant =
  pl_name :: "string option"
  pl_race :: "string option"
  pl_id :: nat

record chat_entry =
  ce_player_name :: "string option"
  ce_message :: "string option"
  ce_time :: "string option"
  ce_frame :: "int option"

record replay =
  gi_winner :: "string option"
  gi_loser :: "string option"
  gi_duration_seconds :: "real option"
  gi_duration :: "string option"
  gi_actual_duration :: "string option"
  gi_game_type :: "string option"
  md_map_name :: "string option"
  md_tileset :: "string option"
  rp_players :: "participant list"
  rp_player_stats :: "(nat \<times> real option) list"
  rp_chat_messages :: "chat_entry list"

text \<open>
  A \<^verbatim>\<open>pathlib.Path\<close> is the list of its parts (how a string splits into parts depends on
  the platform); \<^verbatim>\<open>.name\<close> is the last part.
\<close>

type_synonym path = "string list"

definition path_name :: "path \<Rightarrow> string" where
  "path_name p = (if p = [] then [] else last p)"

text \<open>
  \<^verbatim>\<open>DATE_PATTERN = (\d{4}-\d{2}-\d{2})@(\d{6})\<close>. The pattern has one length and no
  choice, so it matches at a position in one way only: on the next 17 characters, giving
  the two groups. \<^verbatim>\<open>search\<close> returns the leftmost position where it matches.
  \<^verbatim>\<open>\d\<close> is read on the ASCII digits; the other decimal digits of Unicode, which
  Python accepts too, are not modelled.
\<close>

definition is_digit :: "char \<Rightarrow> bool" where
  "is_digit c \<longleftrightarrow> CHR ''0'' \<le> c \<and> c \<le> CHR ''9''"

fun date_pattern_match :: "string \<Rightarrow> (string \<times> string) option" where
  "date_pattern_match
     (y1 # y2 # y3 # y4 # h1 # m1 # m2 # h2 # d1 # d2 # a # t1 # t2 # t3 # t4 # t5 # t6 # rest) =
     (if list_all is_digit [y1, y2, y3, y4] \<and> h1 = CHR ''-''
         \<and> list_all is_digit [m1, m2] \<and> h2 = CHR ''-''
         \<and> list_all is_digit [d1, d2] \<and> a = CHR ''@''
         \<and> list_all is_digit [t1, t2, t3, t4, t5, t6]
      then Some ([y1, y2, y3, y4, h1, m1, m2, h2, d1, d2], [t1, t2, t3, t4, t5, t6])
      else None)"
| "date_pattern_match _ = None"

fun date_pattern_search :: "string \<Rightarrow> (string \<times> string) option" where
  "date_pattern_search [] = None"
| "date_pattern_search (c # cs) =
     (case date_pattern_match (c # cs) of
        Some groups \<Rightarrow> Some groups
      | None \<Rightarrow> date_pattern_search cs)"

definition extract_datetime :: "string \<Rightarrow> string option" where
  "extract_datetime filename =
     (case date_pattern_search filename of
        None \<Rightarrow> None
      | Some (date_str, time_str) \<Rightarrow>
          Some (date_str @ '' '' @ take 2 time_str @ '':'' @ take 2 (drop 2 time_str)
                @ '':'' @ take 2 (drop 4 time_str)))"

text \<open>
  The manager: the store and the in-memory set \<^verbatim>\<open>_my_names\<close>. The property
  \<^verbatim>\<open>my_names\<close> is their union.
\<close>

record manager =
  db :: database
  mem_my_names :: "string set"

definition my_names :: "manager \<Rightarrow> string set" where
  "my_names m = mem_my_names m \<union> set (get_my_names (db m))"

definition determine_my_result :: "manager \<Rightarrow> string option \<Rightarrow> string option \<Rightarrow> string" where
  "determine_my_result m winner loser =
     (if my_names m = {} then ''unknown''
      else if in_names winner (my_names m) then ''win''
      else if in_names loser (my_names m) then ''loss''
      else ''unknown'')"

text \<open>The loop over \<^verbatim>\<open>players\<close> that looks the two races up, on (winner_race, loser_race).\<close>

fun races_loop :: "string option \<Rightarrow> string option \<Rightarrow> participant list \<Rightarrow>
    string option \<times> string option \<Rightarrow> string option \<times> string option" where
  "races_loop winner loser [] acc = acc"
| "races_loop winner loser (p # ps) (wr, lr) =
     (if pl_name p = winner then races_loop winner loser ps (pl_race p, lr)
      else if pl_name p = loser then races_loop winner loser ps (wr, pl_race p)
      else races_loop winner loser ps (wr, lr))"

definition build_game_data :: "manager \<Rightarrow> replay \<Rightarrow> string \<Rightarrow> game_data" where
  "build_game_data m parser file =
     (case races_loop (gi_winner parser) (gi_loser parser) (rp_players parser) (None, None) of
        (wr, lr) \<Rightarrow>
          \<lparr>replay_file = file,
            played_at = extract_datetime file,
            duration_seconds = gi_duration_seconds parser,
            duration_text = (if truthy (gi_duration parser) then gi_duration parser
                             else gi_actual_duration parser),
            map_name = md_map_name parser,
            map_tileset = md_tileset parser,
            game_type = gi_game_type parser,
            winner_name = gi_winner parser,
            loser_name = gi_loser parser,
            winner_race = wr,
            loser_race = lr,
            my_result = determine_my_result m (gi_winner parser) (gi_loser parser)\<rparr>)"

text \<open>
  \<^verbatim>\<open>get_or_create_player\<close> called with a null name: both SELECTs find nothing, the
  INSERT violates \<^verbatim>\<open>name TEXT UNIQUE NOT NULL\<close>, the unit of work is rolled back and the
  error is raised.
\<close>

definition get_or_create_player_of :: "database \<Rightarrow> string option \<Rightarrow> (error + nat) \<times> database" where
  "get_or_create_player_of d name =
     (case name of
        None \<Rightarrow> (Inl IntegrityError, d)
      | Some n \<Rightarrow> (case get_or_create_player d n of (i, d1) \<Rightarrow> (Inr i, d1)))"

text \<open>
  \<^verbatim>\<open>_save_players\<close> and \<^verbatim>\<open>_save_chat\<close>. Every store call is a unit of work of its own,
  so when one raises, the rows written before it stay: the state is returned with the error.
\<close>

fun save_players :: "database \<Rightarrow> nat \<Rightarrow> replay \<Rightarrow> participant list \<Rightarrow> (error + unit) \<times> database" where
  "save_players d game_id parser [] = (Inr (), d)"
| "save_players d game_id parser (p # ps) =
     (case get_or_create_player_of d (pl_name p) of
        (Inl e, d1) \<Rightarrow> (Inl e, d1)
      | (Inr player_id, d1) \<Rightarrow>
          (let is_winner = (pl_name p = gi_winner parser);
               apm = (case map_of (rp_player_stats parser) (pl_id p) of
                        None \<Rightarrow> 0
                      | Some None \<Rightarrow> 0
                      | Some (Some a) \<Rightarrow> a)
           in save_players (insert_game_player d1 game_id player_id (pl_race p) is_winner apm)
                game_id parser ps))"

fun save_chat :: "database \<Rightarrow> nat \<Rightarrow> chat_entry list \<Rightarrow> (error + unit) \<times> database" where
  "save_chat d game_id [] = (Inr (), d)"
| "save_chat d game_id (msg # msgs) =
     (case get_or_create_player_of d (ce_player_name msg) of
        (Inl e, d1) \<Rightarrow> (Inl e, d1)
      | (Inr player_id, d1) \<Rightarrow>
          save_chat
            (insert_chat_message d1 game_id player_id (ce_message msg)
               (case ce_time msg of None \<Rightarrow> [] | Some t \<Rightarrow> t)
               (case ce_frame msg of None \<Rightarrow> 0 | Some f \<Rightarrow> f))
            game_id msgs)"

text \<open>
  \<^verbatim>\<open>process_replay\<close>. The decoder's outcome on the file is an argument: \<open>None\<close> when
  \<^verbatim>\<open>SCReplayParser(...)\<close> or \<^verbatim>\<open>parse()\<close> raises. The result is \<open>Inr None\<close> for a skip or
  a decoding failure, \<open>Inr (Some game_data)\<close> for a stored game and \<open>Inl e\<close> for an
  exception that leaves the function.
\<close>

definition process_replay ::
    "manager \<Rightarrow> path \<Rightarrow> replay option \<Rightarrow> (error + game_data option) \<times> manager" where
  "process_replay m replay_path decoded =
     (let file = path_name replay_path in
      if game_exists (db m) file then (Inr None, m)
      else
        (case decoded of
           None \<Rightarrow> (Inr None, m)
         | Some parser \<Rightarrow>
             (let gd = build_game_data m parser file in
              case insert_game (db m) gd of
                (Inl e, d1) \<Rightarrow> (Inl e, m\<lparr>db := d1\<rparr>)
              | (Inr game_id, d1) \<Rightarrow>
                  (case save_players d1 game_id parser (rp_players parser) of
                     (Inl e, d2) \<Rightarrow> (Inl e, m\<lparr>db := d2\<rparr>)
                   | (Inr _, d2) \<Rightarrow>
                       (case save_chat d2 game_id (rp_chat_messages parser) of
                          (Inl e, d3) \<Rightarrow> (Inl e, m\<lparr>db := d3\<rparr>)
                        | (Inr _, d3) \<Rightarrow> (Inr (Some gd), m\<lparr>db := d3\<rparr>))))))"


section \<open>The change watcher (watcher.py)\<close>

text \<open>
  \<^verbatim>\<open>Path.suffix\<close>: from the last dot of the name on, unless that dot is the first or the
  last character. \<^verbatim>\<open>str.lower\<close> is read on ASCII: no other character lowers to one of
  \<^verbatim>\<open>.rep\<close>.
\<close>

definition rfind :: "char \<Rightarrow> string \<Rightarrow> nat option" where
  "rfind c s = fetchone [i. i \<leftarrow> rev [0..<length s], s ! i = c]"

definition suffix :: "path \<Rightarrow> string" where
  "suffix p =
     (case rfind CHR ''.'' (path_name p) of
        None \<Rightarrow> []
      | Some i \<Rightarrow> if 0 < i \<and> Suc i < length (path_name p) then drop i (path_name p) else [])"

definition lower_char :: "char \<Rightarrow> char" where
  "lower_char c =
     (if CHR ''A'' \<le> c \<and> c \<le> CHR ''Z'' then char_of (of_char c + (32::nat)) else c)"

definition lower :: "string \<Rightarrow> string" where
  "lower s = map lower_char s"

text \<open>
  The handler: the set \<^verbatim>\<open>_processed\<close>, and two traces kept by the model to state
  what is delivered: the paths the callback has been invoked with, in order, and the paths
  on which it raised (the \<^verbatim>\<open>except Exception\<close> branch, which only logs).
\<close>

record handler =
  processed :: "string set"
  delivered :: "path list"
  failures :: "path list"

definition new_handler :: handler where
  "new_handler = \<lparr>processed = {}, delivered = [], failures = []\<rparr>"

text \<open>
  One event as the handler meets it: the path, the directory flag, what
  \<^verbatim>\<open>path.stat().st_size\<close> gives after the settle delay (\<open>None\<close> when \<^verbatim>\<open>stat\<close> raises,
  the file being gone), and whether the callback raises on this path.
\<close>

record fs_event =
  src_path :: path
  is_directory :: bool
  size_after_settle :: "nat option"
  callback_raises :: bool

definition handle :: "handler \<Rightarrow> path \<Rightarrow> nat option \<Rightarrow> bool \<Rightarrow> (error + unit) \<times> handler" where
  "handle h p size_opt cb_raises =
     (if lower (suffix p) \<noteq> ''.rep'' then (Inr (), h)
      else if path_name p \<in> processed h then (Inr (), h)
      else
        (case size_opt of
           None \<Rightarrow> (Inl OSError, h)
         | Some sz \<Rightarrow>
             if sz = 0 then (Inr (), h)
             else
               (let h1 = h\<lparr>processed := insert (path_name p) (processed h)\<rparr>;
                    h2 = h1\<lparr>delivered := delivered h1 @ [p]\<rparr>
                in if cb_raises then (Inr (), h2\<lparr>failures := failures h2 @ [p]\<rparr>)
                   else (Inr (), h2))))"

text \<open>\<^verbatim>\<open>on_created\<close> and \<^verbatim>\<open>on_modified\<close> have the same body.\<close>

definition on_event :: "handler \<Rightarrow> fs_event \<Rightarrow> (error + unit) \<times> handler" where
  "on_event h ev =
     (if \<not> is_directory ev then handle h (src_path ev) (size_after_settle ev) (callback_raises ev)
      else (Inr (), h))"

text \<open>
  The observer thread hands the events to the handler one after the other; an exception
  that leaves the handler ends the thread.
\<close>

fun dispatch :: "handler \<Rightarrow> fs_event list \<Rightarrow> (error + unit) \<times> handler" where
  "dispatch h [] = (Inr (), h)"
| "dispatch h (ev # evs) =
     (case on_event h ev of
        (Inl e, h1) \<Rightarrow> (Inl e, h1)
      | (Inr _, h1) \<Rightarrow> dispatch h1 evs)"

section \<open>Concrete states\<close>

text \<open>A games row with the given id, file, time, winner and loser, the other columns null.\<close>

definition game :: "nat \<Rightarrow> string \<Rightarrow> string option \<Rightarrow> string option \<Rightarrow> string option \<Rightarrow> game_row" where
  "game i file time winner loser =
     \<lparr>replay_file = file, played_at = time, duration_seconds = None, duration_text = None,
       map_name = None, map_tileset = None, game_type = None,
       winner_name = winner, loser_name = loser, winner_race = None, loser_race = None,
       my_result = ''unknown'', g_id = i\<rparr>"

text \<open>Two games between Alice and Bob, each winning one.\<close>

definition db_one_each :: database where
  "db_one_each = empty_db\<lparr>games :=
     [game 1 ''a.rep'' None (Some ''Alice'') (Some ''Bob''),
      game 2 ''b.rep'' None (Some ''Bob'') (Some ''Alice'')]\<rparr>"


text \<open>A decoded 1v1 game of Alice (Terran, the winner) against Bob (Zerg), with one chat line.\<close>

definition replay_ab :: replay where
  "replay_ab =
     \<lparr>gi_winner = Some ''Alice'', gi_loser = Some ''Bob'', gi_duration_seconds = Some 600,
       gi_duration = Some ''10:00'', gi_actual_duration = None, gi_game_type = Some ''1v1'',
       md_map_name = Some ''Fighting Spirit'', md_tileset = Some ''Jungle'',
       rp_players = [\<lparr>pl_name = Some ''Alice'', pl_race = Some ''Terran'', pl_id = 0\<rparr>,
                     \<lparr>pl_name = Some ''Bob'', pl_race = Some ''Zerg'', pl_id = 1\<rparr>],
       rp_player_stats = [(0, Some 250), (1, None)],
       rp_chat_messages = [\<lparr>ce_player_name = Some ''Bob'', ce_message = Some ''gg'',
                             ce_time = Some ''09:58'', ce_frame = Some 14200\<rparr>]\<rparr>"

text \<open>The same game where the decoder has left the second participant's name null.\<close>

definition replay_null_name :: replay where
  "replay_null_name =
     replay_ab\<lparr>rp_players := [\<lparr>pl_name = Some ''Alice'', pl_race = Some ''Terran'', pl_id = 0\<rparr>,
                               \<lparr>pl_name = None, pl_race = Some ''Zerg'', pl_id = 1\<rparr>]\<rparr>"

definition new_manager :: manager where
  "new_manager = \<lparr>db = empty_db, mem_my_names = {}\<rparr>"

text \<open>
  Alice is the local user; she has won three games and lost two against Bob, and won one
  against Carol.
\<close>

definition db_alice :: database where
  "db_alice = empty_db
     \<lparr>players := [\<lparr>p_id = 1, p_name = ''Alice'', is_me = True\<rparr>,
                   \<lparr>p_id = 2, p_name = ''Bob'', is_me = False\<rparr>,
                   \<lparr>p_id = 3, p_name = ''Carol'', is_me = False\<rparr>],
       games := [game 1 ''1.rep'' (Some ''2026-02-01 10:00:00'') (Some ''Alice'') (Some ''Bob''),
                 game 2 ''2.rep'' (Some ''2026-02-02 10:00:00'') (Some ''Bob'') (Some ''Alice''),
                 game 3 ''3.rep'' (Some ''2026-02-03 10:00:00'') (Some ''Alice'') (Some ''Carol''),
                 game 4 ''4.rep'' (Some ''2026-02-04 10:00:00'') (Some ''Alice'') (Some ''Bob''),
                 game 5 ''5.rep'' None (Some ''Bob'') (Some ''Alice''),
                 game 6 ''6.rep'' (Some ''2026-02-06 10:00:00'') (Some ''Alice'') (Some ''Bob'')]\<rparr>"

section \<open>Notions used in the proofs\<close>

text \<open>
  The first non-null played-at of a list of games, and what the dictionary \<^verbatim>\<open>stats\<close>
  of \<^verbatim>\<open>get_all_opponents\<close> holds for an opponent once the loop has gone through the
  games \<open>gs\<close>.
\<close>

definition first_played :: "game_row list \<Rightarrow> string option" where
  "first_played gs = (case filter (\<lambda>t. t \<noteq> None) (map played_at gs) of [] \<Rightarrow> None | t # _ \<Rightarrow> t)"

definition stat_of :: "string set \<Rightarrow> game_row list \<Rightarrow> string \<Rightarrow> stat" where
  "stat_of names gs opp =
     \<lparr>s_wins = length (filter (\<lambda>g. opponent_of names g = Some (opp, True)) gs),
       s_losses = length (filter (\<lambda>g. opponent_of names g = Some (opp, False)) gs),
       s_last_played =
         first_played (filter (\<lambda>g. map_option fst (opponent_of names g) = Some opp) gs)\<rparr>"

section \<open>Properties of the record store\<close>

lemma fold_max_ge: "m \<le> fold max ids (m::nat)"
  by (induction ids arbitrary: m) (auto intro: order_trans [OF max.cobounded2])

lemma fold_max_mem: "i \<in> set ids \<Longrightarrow> i \<le> fold max ids (m::nat)"
proof (induction ids arbitrary: m)
  case Nil
  then show ?case by simp
next
  case (Cons x xs)
  show ?case
  proof (cases "i = x")
    case True
    have "x \<le> max x m" by simp
    also have "\<dots> \<le> fold max xs (max x m)" by (rule fold_max_ge)
    finally show ?thesis using True by simp
  next
    case False
    with Cons show ?thesis by simp
  qed
qed

lemma next_id_fresh: "next_id ids \<notin> set ids"
  using fold_max_mem [of "next_id ids" ids 0] by (auto simp: next_id_def)

lemma fetchone_None_iff: "fetchone rows = None \<longleftrightarrow> rows = []"
  by (simp add: fetchone_def split: list.splits)

lemma fetchone_Some_mem: "fetchone rows = Some r \<Longrightarrow> r \<in> set rows"
  by (auto simp: fetchone_def split: list.splits)

lemma filter_key_unique:
  "distinct (map f xs) \<Longrightarrow> x \<in> set xs \<Longrightarrow> filter (\<lambda>y. f y = f x) xs = [x]"
proof (induction xs)
  case Nil
  then show ?case by simp
next
  case (Cons y ys)
  show ?case
  proof (cases "y = x")
    case True
    have "f x \<notin> f ` set ys"
      using Cons.prems(1) True by simp
    then have "filter (\<lambda>z. f z = f x) ys = []"
      unfolding filter_empty_conv by (metis imageI)
    with True show ?thesis by simp
  next
    case False
    with Cons.prems have "x \<in> set ys" by simp
    moreover have "f y \<noteq> f x" using Cons.prems(1) \<open>x \<in> set ys\<close> by auto
    ultimately show ?thesis using Cons by simp
  qed
qed

lemma filter_key_absent:
  "k \<notin> set (map f xs) \<Longrightarrow> filter (\<lambda>y. f y = k) xs = []"
  by (auto simp: filter_empty_conv)

lemma concat_map_if:
  "concat (map (\<lambda>a. if P a then g a else []) xs) = concat (map g (filter P xs))"
  by (induction xs) auto

lemma resolve_alias_row:
  assumes "wf_db d" and "r \<in> set (aliases d)" and "p \<in> set (players d)"
    and "p_id p = a_player_id r"
  shows "resolve_player_name d (alt_name r) = p_name p"
proof -
  have da: "distinct (map alt_name (aliases d))" and dp: "distinct (map p_id (players d))"
    using assms(1) by (simp_all add: wf_db_def)
  have fa: "filter (\<lambda>y. alt_name y = alt_name r) (aliases d) = [r]"
    by (rule filter_key_unique [OF da assms(2)])
  have fp: "filter (\<lambda>y. p_id y = p_id p) (players d) = [p]"
    by (rule filter_key_unique [OF dp assms(3)])
  show ?thesis
    using fa fp assms(4) by (simp add: resolve_player_name_def concat_map_if fetchone_def)
qed

lemma resolve_no_alias:
  "n \<notin> set (map alt_name (aliases d)) \<Longrightarrow> resolve_player_name d n = n"
  by (simp add: resolve_player_name_def concat_map_if filter_key_absent fetchone_def)

lemma gocp_player_row:
  assumes "p \<in> set (players d)" and "distinct (map p_name (players d))"
  shows "get_or_create_player d (p_name p) = (p_id p, d)"
  using filter_key_unique [OF assms(2) assms(1)]
  by (simp add: get_or_create_player_def concat_map_if fetchone_def)

lemma gocp_alias_row:
  assumes "r \<in> set (aliases d)" and "distinct (map alt_name (aliases d))"
    and "alt_name r \<notin> set (map p_name (players d))"
  shows "get_or_create_player d (alt_name r) = (a_player_id r, d)"
  using filter_key_unique [OF assms(2) assms(1)] filter_key_absent [OF assms(3)]
  by (simp add: get_or_create_player_def concat_map_if fetchone_def)

lemma gocp_new:
  assumes "n \<notin> set (map p_name (players d))" and "n \<notin> set (map alt_name (aliases d))"
  shows "get_or_create_player d n =
    (next_id (map p_id (players d)),
     d\<lparr>players := players d @ [\<lparr>p_id = next_id (map p_id (players d)), p_name = n, is_me = False\<rparr>]\<rparr>)"
  using filter_key_absent [OF assms(1)] filter_key_absent [OF assms(2)]
  by (simp add: get_or_create_player_def concat_map_if fetchone_def Let_def)


lemma gocp_cases:
  obtains (player) p where "p \<in> set (players d)" "p_name p = n"
      "get_or_create_player d n = (p_id p, d)"
  | (aliased) r where "n \<notin> set (map p_name (players d))" "r \<in> set (aliases d)"
      "alt_name r = n" "get_or_create_player d n = (a_player_id r, d)"
  | (new) "n \<notin> set (map p_name (players d))" "n \<notin> set (map alt_name (aliases d))"
      "get_or_create_player d n =
        (next_id (map p_id (players d)),
         d\<lparr>players := players d @
            [\<lparr>p_id = next_id (map p_id (players d)), p_name = n, is_me = False\<rparr>]\<rparr>)"
proof (cases "fetchone [p. p \<leftarrow> players d, p_name p = n]")
  case (Some p)
  then have "p \<in> set (players d)" and "p_name p = n"
    by (auto dest: fetchone_Some_mem)
  moreover from Some have "get_or_create_player d n = (p_id p, d)"
    by (auto simp: get_or_create_player_def concat_map_if fetchone_def split: list.splits)
  ultimately show ?thesis by (rule player)
next
  case None
  then have np: "n \<notin> set (map p_name (players d))"
    by (auto simp: fetchone_None_iff filter_empty_conv)
  show ?thesis
  proof (cases "fetchone [r. r \<leftarrow> aliases d, alt_name r = n]")
    case (Some r)
    then have "r \<in> set (aliases d)" and "alt_name r = n"
      by (auto dest: fetchone_Some_mem)
    moreover from Some np have "get_or_create_player d n = (a_player_id r, d)"
      by (auto simp: get_or_create_player_def concat_map_if fetchone_def filter_key_absent
          split: list.splits)
    ultimately show ?thesis using np by (intro aliased)
  next
    case None
    then have "n \<notin> set (map alt_name (aliases d))"
      by (auto simp: fetchone_None_iff filter_empty_conv)
    then show ?thesis using np gocp_new by (intro new)
  qed
qed

lemma wf_add_player:
  assumes "wf_db d" and "n \<notin> set (map p_name (players d))"
  shows "wf_db (d\<lparr>players := players d @
            [\<lparr>p_id = next_id (map p_id (players d)), p_name = n, is_me = False\<rparr>]\<rparr>)"
  using assms next_id_fresh [of "map p_id (players d)"]
  by (auto simp: wf_db_def list_all_iff)

lemma wf_add_alias_row:
  assumes "wf_db d" and "alt \<notin> set (map alt_name (aliases d))"
    and "i \<in> set (map p_id (players d))"
  shows "wf_db (d\<lparr>aliases := aliases d @ [\<lparr>a_player_id = i, alt_name = alt\<rparr>]\<rparr>)"
  using assms by (auto simp: wf_db_def list_all_iff)

lemma gocp_wf:
  assumes "wf_db d" and "get_or_create_player d n = (i, d1)"
  shows "wf_db d1 \<and> aliases d1 = aliases d \<and> games d1 = games d
         \<and> i \<in> set (map p_id (players d1)) \<and> set (players d) \<subseteq> set (players d1)"
proof (cases rule: gocp_cases [of d n])
  case (player p)
  with assms show ?thesis by auto
next
  case (aliased r)
  with assms show ?thesis by (auto simp: wf_db_def list_all_iff)
next
  case new
  with assms wf_add_player [OF assms(1) new(1)] show ?thesis by auto
qed

lemma add_alias_fresh:
  assumes "wf_db d" and "alt \<notin> set (map alt_name (aliases d))"
    and "get_or_create_player d n = (i, d1)"
  shows "add_alias d n alt = d1\<lparr>aliases := aliases d1 @ [\<lparr>a_player_id = i, alt_name = alt\<rparr>]\<rparr>"
    and "wf_db (add_alias d n alt)"
proof -
  note g = gocp_wf [OF assms(1) assms(3)]
  show eq: "add_alias d n alt = d1\<lparr>aliases := aliases d1 @ [\<lparr>a_player_id = i, alt_name = alt\<rparr>]\<rparr>"
    using assms(2,3) g by (simp add: add_alias_def)
  show "wf_db (add_alias d n alt)"
    unfolding eq using g assms(2) by (intro wf_add_alias_row) auto
qed

lemma resolve_after_add:
  assumes "wf_db d" and "alt \<notin> set (map alt_name (aliases d))"
    and "get_or_create_player d n = (i, d1)" and "p \<in> set (players d1)" and "p_id p = i"
  shows "resolve_player_name (add_alias d n alt) alt = p_name p"
proof -
  let ?r = "\<lparr>a_player_id = i, alt_name = alt\<rparr>"
  have eq: "add_alias d n alt = d1\<lparr>aliases := aliases d1 @ [?r]\<rparr>"
    by (rule add_alias_fresh(1) [OF assms(1-3)])
  have "resolve_player_name (add_alias d n alt) (alt_name ?r) = p_name p"
    by (rule resolve_alias_row [OF add_alias_fresh(2) [OF assms(1-3)]])
       (use assms(4,5) in \<open>simp_all add: eq\<close>)
  then show ?thesis by simp
qed


lemma wf_empty_db: "wf_db empty_db"
  by (simp add: wf_db_def empty_db_def)

subsection \<open>C1: alias resolution\<close>

text \<open>
  C1, as the code has it. In a stored state where \<open>b\<close> and \<open>c\<close> are not yet alt names and
  \<open>a\<close> is a player name or at least no alt name, \<^verbatim>\<open>add_alias(a, b)\<close> makes \<open>b\<close> resolve to
  \<open>a\<close>. A following \<^verbatim>\<open>add_alias(b, c)\<close> looks \<open>b\<close> up with \<^verbatim>\<open>get_or_create_player\<close>,
  which tries the player names first and the alias table second: when \<open>b\<close> is a player
  name, \<open>c\<close> resolves to \<open>b\<close>; when it is not, \<open>b\<close> is found as the alt name of \<open>a\<close>'s
  player, the new alias row points at that player, and \<open>c\<close> resolves to \<open>a\<close>. Every alias
  row points at a player row, so a lookup is one hop.
\<close>

theorem alias_resolution_amended:
  assumes "wf_db d"
    and "b \<notin> set (map alt_name (aliases d))"
    and "c \<notin> set (map alt_name (aliases d))" and "c \<noteq> b"
    and "a \<in> set (map p_name (players d)) \<or> a \<notin> set (map alt_name (aliases d))"
  shows "resolve_player_name (add_alias d a b) b = a \<and>
         resolve_player_name (add_alias (add_alias d a b) b c) c =
           (if b \<in> set (map p_name (players d)) \<or> b = a then b else a)"
proof -
  obtain i d1 where g: "get_or_create_player d a = (i, d1)"
    by (cases "get_or_create_player d a")
  have "\<exists>pa. pa \<in> set (players d1) \<and> p_id pa = i \<and> p_name pa = a \<and>
          set (map p_name (players d1)) = insert a (set (map p_name (players d)))"
  proof (cases rule: gocp_cases [of d a])
    case (player p)
    with g show ?thesis by auto
  next
    case (aliased r)
    with assms(5) show ?thesis by auto
  next
    case new
    let ?p = "\<lparr>p_id = next_id (map p_id (players d)), p_name = a, is_me = False\<rparr>"
    from new g have "i = p_id ?p" and "d1 = d\<lparr>players := players d @ [?p]\<rparr>"
      by simp_all
    then have "?p \<in> set (players d1) \<and> p_id ?p = i \<and> p_name ?p = a \<and>
          set (map p_name (players d1)) = insert a (set (map p_name (players d)))"
      by simp
    then show ?thesis by (rule exI)
  qed
  then obtain pa where pa: "pa \<in> set (players d1)" "p_id pa = i" "p_name pa = a"
    and names: "set (map p_name (players d1)) = insert a (set (map p_name (players d)))"
    by blast
  let ?r = "\<lparr>a_player_id = i, alt_name = b\<rparr>"
  let ?d2 = "add_alias d a b"
  have eq2: "?d2 = d1\<lparr>aliases := aliases d1 @ [?r]\<rparr>"
    by (rule add_alias_fresh(1) [OF assms(1,2) g])
  have wf2: "wf_db ?d2"
    by (rule add_alias_fresh(2) [OF assms(1,2) g])
  have al1: "aliases d1 = aliases d"
    using gocp_wf [OF assms(1) g] by simp
  have c2: "c \<notin> set (map alt_name (aliases ?d2))"
    using assms(3,4) by (simp add: eq2 al1)
  have first: "resolve_player_name ?d2 b = a"
    using resolve_after_add [OF assms(1,2) g pa(1,2)] pa(3) by simp
  have second: "resolve_player_name (add_alias ?d2 b c) c =
           (if b \<in> set (map p_name (players d)) \<or> b = a then b else a)"
  proof (cases "b \<in> set (map p_name (players d)) \<or> b = a")
    case True
    then have "b \<in> set (map p_name (players ?d2))"
      using names by (auto simp: eq2)
    then obtain pb where pb: "pb \<in> set (players ?d2)" "p_name pb = b"
      by auto
    have "distinct (map p_name (players ?d2))"
      using wf2 by (simp add: wf_db_def)
    from gocp_player_row [OF pb(1) this]
    have "get_or_create_player ?d2 b = (p_id pb, ?d2)"
      by (simp add: pb(2))
    from resolve_after_add [OF wf2 c2 this pb(1)] pb(2) True
    show ?thesis by simp
  next
    case False
    then have nb: "alt_name ?r \<notin> set (map p_name (players ?d2))"
      using names by (auto simp: eq2)
    have "?r \<in> set (aliases ?d2)"
      by (simp add: eq2)
    moreover have "distinct (map alt_name (aliases ?d2))"
      using wf2 by (simp add: wf_db_def)
    ultimately have "get_or_create_player ?d2 (alt_name ?r) = (a_player_id ?r, ?d2)"
      using nb by (rule gocp_alias_row)
    then have "get_or_create_player ?d2 b = (i, ?d2)"
      by simp
    moreover have "pa \<in> set (players ?d2)"
      using pa(1) by (simp add: eq2)
    ultimately show ?thesis
      using resolve_after_add [OF wf2 c2 _ _ pa(2)] pa(3) False by simp
  qed
  from first second show ?thesis ..
qed

text \<open>The theorem at the empty store, with the names A, B and C.\<close>

theorem alias_resolution_amended_witness:
  "wf_db empty_db \<and> resolve_player_name (add_alias empty_db ''A'' ''B'') ''B'' = ''A'' \<and>
   resolve_player_name (add_alias (add_alias empty_db ''A'' ''B'') ''B'' ''C'') ''C'' = ''A''"
  using alias_resolution_amended [of empty_db "''B''" "''C''" "''A''"] wf_empty_db
  by (simp add: empty_db_def)

text \<open>
  C1 as the specification states it fails on the empty store: after \<^verbatim>\<open>add_alias(A, B)\<close>
  and \<^verbatim>\<open>add_alias(B, C)\<close> the name C resolves to A, not to B.
\<close>

theorem alias_transitive_counterexample:
  "resolve_player_name (add_alias empty_db ''A'' ''B'') ''B'' = ''A'' \<and>
   resolve_player_name (add_alias (add_alias empty_db ''A'' ''B'') ''B'' ''C'') ''C'' = ''A'' \<and>
   resolve_player_name (add_alias (add_alias empty_db ''A'' ''B'') ''B'' ''C'') ''C'' \<noteq> ''B''"
  by code_simp

subsection \<open>C2: appearance counts\<close>

text \<open>
  C2 asks for one row per name, carrying the games won and lost together. The query
  joins the winners' groups and the losers' groups with \<^verbatim>\<open>UNION ALL\<close> and sums nothing:
  in the store where Alice and Bob have each won one game against the other, Alice has
  two rows of count 1 and no row of count 2.
\<close>

theorem name_counts_split_by_role:
  "filter (\<lambda>r. fst r = ''Alice'') (get_player_name_counts db_one_each)
     = [(''Alice'', 1), (''Alice'', 1)]"
  by code_simp

subsection \<open>C3: inferring the local user\<close>

lemma sorted_order_by_desc: "sorted (rev (map key (order_by_desc key rows)))"
  by (simp add: order_by_desc_def rev_map [symmetric])




subsection \<open>C4: the played-at field\<close>













section \<open>Properties of the ingestion pipeline\<close>

lemma game_exists_iff: "game_exists d f \<longleftrightarrow> f \<in> set (map replay_file (games d))"
  by (auto simp: game_exists_def fetchone_None_iff filter_empty_conv)

lemma gocp_tables:
  assumes "get_or_create_player d n = (i, d1)"
  shows "games d1 = games d \<and> game_players d1 = game_players d
         \<and> chat_messages d1 = chat_messages d"
  using assms
  by (auto simp: get_or_create_player_def Let_def split: option.splits)

lemma gocp_of_tables:
  assumes "get_or_create_player_of d n = (r, d1)"
  shows "games d1 = games d \<and> game_players d1 = game_players d
         \<and> chat_messages d1 = chat_messages d"
  using assms
  by (auto simp: get_or_create_player_of_def dest: gocp_tables split: option.splits prod.splits)

lemma save_players_rows:
  assumes "save_players d game_id parser ps = (r, d1)"
  shows "games d1 = games d \<and> chat_messages d1 = chat_messages d \<and>
         (case r of
            Inl e \<Rightarrow> length (game_players d1) < length (game_players d) + length ps
          | Inr u \<Rightarrow> length (game_players d1) = length (game_players d) + length ps)"
  using assms
proof (induction ps arbitrary: d)
  case Nil
  then show ?case by auto
next
  case (Cons p ps)
  obtain r0 d0 where g: "get_or_create_player_of d (pl_name p) = (r0, d0)"
    by (cases "get_or_create_player_of d (pl_name p)")
  note t = gocp_of_tables [OF g]
  show ?case
  proof (cases r0)
    case (Inl e)
    with Cons.prems g t show ?thesis by auto
  next
    case (Inr player_id)
    define apm where "apm = (case map_of (rp_player_stats parser) (pl_id p) of
        None \<Rightarrow> 0 | Some None \<Rightarrow> 0 | Some (Some a) \<Rightarrow> a)"
    define d2 where "d2 = insert_game_player d0 game_id player_id (pl_race p)
        (pl_name p = gi_winner parser) apm"
    have rec: "save_players d2 game_id parser ps = (r, d1)"
      using Cons.prems g Inr by (simp add: d2_def apm_def Let_def)
    have d2: "games d2 = games d0" "chat_messages d2 = chat_messages d0"
          "length (game_players d2) = Suc (length (game_players d0))"
      by (simp_all add: d2_def insert_game_player_def)
    from Cons.IH [OF rec] d2 t show ?thesis
      by (auto split: sum.splits)
  qed
qed

lemma save_chat_rows:
  assumes "save_chat d game_id msgs = (r, d1)"
  shows "games d1 = games d \<and> game_players d1 = game_players d \<and>
         (case r of
            Inl e \<Rightarrow> length (chat_messages d1) < length (chat_messages d) + length msgs
          | Inr u \<Rightarrow> length (chat_messages d1) = length (chat_messages d) + length msgs)"
  using assms
proof (induction msgs arbitrary: d)
  case Nil
  then show ?case by auto
next
  case (Cons msg msgs)
  obtain r0 d0 where g: "get_or_create_player_of d (ce_player_name msg) = (r0, d0)"
    by (cases "get_or_create_player_of d (ce_player_name msg)")
  note t = gocp_of_tables [OF g]
  show ?case
  proof (cases r0)
    case (Inl e)
    with Cons.prems g t show ?thesis by auto
  next
    case (Inr player_id)
    define d2 where "d2 = insert_chat_message d0 game_id player_id (ce_message msg)
        (case ce_time msg of None \<Rightarrow> [] | Some t \<Rightarrow> t)
        (case ce_frame msg of None \<Rightarrow> 0 | Some f \<Rightarrow> f)"
    have rec: "save_chat d2 game_id msgs = (r, d1)"
      using Cons.prems g Inr by (simp add: d2_def)
    have d2: "games d2 = games d0" "game_players d2 = game_players d0"
          "length (chat_messages d2) = Suc (length (chat_messages d0))"
      by (simp_all add: d2_def insert_chat_message_def)
    from Cons.IH [OF rec] d2 t show ?thesis
      by (auto split: sum.splits)
  qed
qed

lemma insert_game_new:
  assumes "\<not> game_exists d (replay_file gd)"
  shows "\<exists>i row. insert_game d gd = (Inr i, d\<lparr>games := games d @ [row]\<rparr>)
           \<and> replay_file row = replay_file gd"
proof -
  let ?i = "next_id (map g_id (games d))"
  let ?row = "game_data.extend gd \<lparr>g_id = ?i\<rparr>"
  have "insert_game d gd = (Inr ?i, d\<lparr>games := games d @ [?row]\<rparr>)"
    using assms by (simp add: insert_game_def game_exists_iff Let_def)
  moreover have "replay_file ?row = replay_file gd"
    by (simp add: game_data.defs)
  ultimately show ?thesis by blast
qed

lemma replay_file_build: "replay_file (build_game_data m parser f) = f"
  by (simp add: build_game_data_def split: prod.splits)

lemma process_replay_skip:
  "game_exists (db m) (path_name p) \<Longrightarrow> process_replay m p d = (Inr None, m)"
  by (simp add: process_replay_def)

text \<open>What a call on a decodable new file does to the tables.\<close>

lemma process_replay_new:
  assumes "\<not> game_exists (db m) (path_name p)"
    and "process_replay m p (Some parser) = (r, m1)"
  shows "\<exists>row. games (db m1) = games (db m) @ [row] \<and> replay_file row = path_name p"
    and "(case r of Inl e \<Rightarrow>
            length (game_players (db m1)) + length (chat_messages (db m1))
              < length (game_players (db m)) + length (chat_messages (db m))
                + length (rp_players parser) + length (rp_chat_messages parser)
          | Inr res \<Rightarrow>
            res = Some (build_game_data m parser (path_name p)) \<and>
            length (game_players (db m1)) = length (game_players (db m)) + length (rp_players parser) \<and>
            length (chat_messages (db m1)) = length (chat_messages (db m))
                + length (rp_chat_messages parser))"
proof -
  let ?gd = "build_game_data m parser (path_name p)"
  from assms(1) have "\<not> game_exists (db m) (replay_file ?gd)"
    by (simp add: replay_file_build)
  from insert_game_new [OF this] obtain i row where
    ig: "insert_game (db m) ?gd = (Inr i, (db m)\<lparr>games := games (db m) @ [row]\<rparr>)"
    and row: "replay_file row = path_name p"
    by (auto simp: replay_file_build)
  let ?d1 = "(db m)\<lparr>games := games (db m) @ [row]\<rparr>"
  obtain r2 d2 where sp: "save_players ?d1 i parser (rp_players parser) = (r2, d2)"
    by (cases "save_players ?d1 i parser (rp_players parser)")
  obtain r3 d3 where sc: "save_chat d2 i (rp_chat_messages parser) = (r3, d3)"
    by (cases "save_chat d2 i (rp_chat_messages parser)")
  note a = save_players_rows [OF sp] and b = save_chat_rows [OF sc]
  have res: "(r, m1) = (case r2 of Inl e \<Rightarrow> (Inl e, m\<lparr>db := d2\<rparr>)
                | Inr u \<Rightarrow> (case r3 of Inl e \<Rightarrow> (Inl e, m\<lparr>db := d3\<rparr>)
                            | Inr v \<Rightarrow> (Inr (Some ?gd), m\<lparr>db := d3\<rparr>)))"
    using assms ig sp sc by (simp add: process_replay_def Let_def split: sum.splits)
  show "\<exists>row. games (db m1) = games (db m) @ [row] \<and> replay_file row = path_name p"
    using res a b row by (auto split: sum.splits)
  show "(case r of Inl e \<Rightarrow>
            length (game_players (db m1)) + length (chat_messages (db m1))
              < length (game_players (db m)) + length (chat_messages (db m))
                + length (rp_players parser) + length (rp_chat_messages parser)
          | Inr res \<Rightarrow>
            res = Some (build_game_data m parser (path_name p)) \<and>
            length (game_players (db m1)) = length (game_players (db m)) + length (rp_players parser) \<and>
            length (chat_messages (db m1)) = length (chat_messages (db m))
                + length (rp_chat_messages parser))"
    using res a b by (auto split: sum.splits)
qed

lemma process_replay_decoded_exists:
  assumes "process_replay m p (Some parser) = (r, m1)"
  shows "game_exists (db m1) (path_name p)"
proof (cases "game_exists (db m) (path_name p)")
  case True
  with assms show ?thesis by (simp add: process_replay_skip)
next
  case False
  from process_replay_new(1) [OF False assms] show ?thesis
    by (auto simp: game_exists_iff)
qed

lemma process_replay_distinct:
  assumes "distinct (map replay_file (games (db m)))"
    and "process_replay m p (Some parser) = (r, m1)"
  shows "distinct (map replay_file (games (db m1)))"
proof (cases "game_exists (db m) (path_name p)")
  case True
  with assms show ?thesis by (simp add: process_replay_skip)
next
  case False
  from process_replay_new(1) [OF False assms(2)] assms(1) False show ?thesis
    by (auto simp: game_exists_iff)
qed

lemma count_key_unique:
  assumes "distinct (map f xs)" and "k \<in> set (map f xs)"
  shows "length (filter (\<lambda>x. f x = k) xs) = 1"
proof -
  from assms(2) obtain x where "x \<in> set xs" and "k = f x" by auto
  with filter_key_unique [OF assms(1), of x] show ?thesis by simp
qed

subsection \<open>C5: ingesting a file twice\<close>

text \<open>
  C5. Take a stored state and a file the decoder can read. Whatever the first call of
  \<^verbatim>\<open>process_replay\<close> on it returns, a second call on the same path returns none, leaves
  the manager and the store as they are, and the store holds exactly one games row of
  that file name.
\<close>

theorem ingest_idempotent:
  assumes "wf_db (db m)" and "process_replay m p (Some parser) = (r1, m1)"
  shows "process_replay m1 p d2 = (Inr None, m1) \<and>
         length [g. g \<leftarrow> games (db m1), replay_file g = path_name p] = 1"
proof -
  have ex: "game_exists (db m1) (path_name p)"
    by (rule process_replay_decoded_exists [OF assms(2)])
  have "distinct (map replay_file (games (db m1)))"
    using assms by (auto simp: wf_db_def intro: process_replay_distinct)
  from count_key_unique [OF this] ex
  have "length (filter (\<lambda>g. replay_file g = path_name p) (games (db m1))) = 1"
    by (simp add: game_exists_iff)
  moreover have "[g. g \<leftarrow> games (db m1), replay_file g = path_name p]
      = filter (\<lambda>g. replay_file g = path_name p) (games (db m1))"
    by (induction "games (db m1)") (simp_all add: concat_map_if)
  ultimately show ?thesis using ex by (simp add: process_replay_skip)
qed

text \<open>The theorem on the empty store and the game of Alice against Bob.\<close>

theorem ingest_idempotent_witness:
  "wf_db (db new_manager) \<and>
   (let m1 = snd (process_replay new_manager [''replays'', ''g.rep''] (Some replay_ab)) in
    process_replay m1 [''replays'', ''g.rep''] (Some replay_ab) = (Inr None, m1) \<and>
    length [g. g \<leftarrow> games (db m1), replay_file g = ''g.rep''] = 1)"
proof -
  let ?p = "[''replays'', ''g.rep'']"
  have wf: "wf_db (db new_manager)"
    by (simp add: new_manager_def wf_empty_db)
  have pr: "process_replay new_manager ?p (Some replay_ab)
      = (fst (process_replay new_manager ?p (Some replay_ab)),
         snd (process_replay new_manager ?p (Some replay_ab)))"
    by simp
  from ingest_idempotent [OF wf pr, of "Some replay_ab"] wf
  show ?thesis by (simp add: path_name_def Let_def)
qed

subsection \<open>C10: a failure after the games row\<close>

text \<open>
  C10. When \<^verbatim>\<open>process_replay\<close> ends with an exception, the file was new and decoded, its
  games row is in the store, fewer participant and chat rows were written than the decoder
  produced, and every later call on a path of the same name, whatever the decoder gives,
  returns none and changes nothing: the missing rows are not written again.
\<close>

theorem ingest_not_atomic:
  assumes "process_replay m p d = (Inl e, m1)"
  shows "\<not> game_exists (db m) (path_name p) \<and> game_exists (db m1) (path_name p) \<and>
         (\<exists>parser. d = Some parser \<and>
            length (game_players (db m1)) + length (chat_messages (db m1))
              < length (game_players (db m)) + length (chat_messages (db m))
                + length (rp_players parser) + length (rp_chat_messages parser)) \<and>
         (\<forall>p' d'. path_name p' = path_name p \<longrightarrow> process_replay m1 p' d' = (Inr None, m1))"
proof -
  have new: "\<not> game_exists (db m) (path_name p)"
    using assms by (auto simp: process_replay_skip)
  with assms obtain parser where d: "d = Some parser"
    by (cases d) (auto simp: process_replay_def)
  have ex: "game_exists (db m1) (path_name p)"
    using assms d by (auto intro: process_replay_decoded_exists)
  have "length (game_players (db m1)) + length (chat_messages (db m1))
          < length (game_players (db m)) + length (chat_messages (db m))
            + length (rp_players parser) + length (rp_chat_messages parser)"
    using process_replay_new(2) [OF new, of parser "Inl e" m1] assms d by simp
  with new ex d show ?thesis by (simp add: process_replay_skip)
qed

text \<open>
  The theorem on a replay whose second participant has a null name: the games row and
  Alice's participant row stay, Bob's row and the chat line are missing.
\<close>

theorem ingest_not_atomic_witness:
  "(let m1 = snd (process_replay new_manager [''replays'', ''x.rep''] (Some replay_null_name)) in
    process_replay new_manager [''replays'', ''x.rep''] (Some replay_null_name)
      = (Inl IntegrityError, m1) \<and>
    game_exists (db m1) ''x.rep'' \<and>
    length (game_players (db m1)) = 1 \<and> chat_messages (db m1) = [] \<and>
    process_replay m1 [''elsewhere'', ''x.rep''] (Some replay_ab) = (Inr None, m1))"
proof -
  let ?p = "[''replays'', ''x.rep'']"
  let ?m1 = "snd (process_replay new_manager ?p (Some replay_null_name))"
  have pr: "process_replay new_manager ?p (Some replay_null_name) = (Inl IntegrityError, ?m1)"
    by code_simp
  have rows: "length (game_players (db ?m1)) = 1 \<and> chat_messages (db ?m1) = []"
    by code_simp
  from ingest_not_atomic [OF pr] have "game_exists (db ?m1) (path_name ?p)"
    and "process_replay ?m1 [''elsewhere'', ''x.rep''] (Some replay_ab) = (Inr None, ?m1)"
    by (simp_all add: path_name_def)
  with pr rows show ?thesis by (simp add: Let_def path_name_def)
qed

section \<open>Properties of the change watcher\<close>

lemma handle_processed:
  "path_name p \<in> processed h \<Longrightarrow> handle h p sz cb = (Inr (), h)"
  by (simp add: handle_def)

lemma handle_step:
  assumes "handle h p sz cb = (r, h1)"
  shows "h1 = h \<or>
         (r = Inr () \<and> path_name p \<notin> processed h \<and>
          processed h1 = insert (path_name p) (processed h) \<and>
          delivered h1 = delivered h @ [p] \<and>
          failures h1 = (if cb then failures h @ [p] else failures h))"
  using assms by (auto simp: handle_def Let_def split: if_splits option.splits)

lemma handle_delivers:
  assumes "lower (suffix p) = ''.rep''" and "0 < sz" and "handle h p (Some sz) cb = (r, h1)"
  shows "r = Inr () \<and> path_name p \<in> processed h1"
  using assms by (auto simp: handle_def Let_def split: if_splits)

subsection \<open>C9: two paths with one file name\<close>

text \<open>
  C9. Let two paths end in the same file name. Once the first has been through
  \<^verbatim>\<open>process_replay\<close> with a decoded replay, the second returns none and changes nothing;
  once the first has been through the handler as a non-empty \<^verbatim>\<open>.rep\<close> file, an event on
  the second leaves the handler as it is, so the callback is not invoked.
\<close>

theorem dedup_by_basename:
  assumes "path_name p2 = path_name p1"
    and "process_replay m p1 (Some parser) = (r1, m1)"
    and "lower (suffix p1) = ''.rep''" and "0 < sz" and "handle h p1 (Some sz) cb = (r, h1)"
  shows "process_replay m1 p2 d2 = (Inr None, m1) \<and> handle h1 p2 sz2 cb2 = (Inr (), h1)"
proof -
  have "game_exists (db m1) (path_name p2)"
    using process_replay_decoded_exists [OF assms(2)] assms(1) by simp
  then have "process_replay m1 p2 d2 = (Inr None, m1)"
    by (rule process_replay_skip)
  moreover have "path_name p2 \<in> processed h1"
    using handle_delivers [OF assms(3-5)] assms(1) by simp
  then have "handle h1 p2 sz2 cb2 = (Inr (), h1)"
    by (rule handle_processed)
  ultimately show ?thesis ..
qed

text \<open>The theorem on the same file name in two directories.\<close>

theorem dedup_by_basename_witness:
  "[''replays'', ''a'', ''g.rep''] \<noteq> [''replays'', ''b'', ''g.rep''] \<and>
   (let m1 = snd (process_replay new_manager [''replays'', ''a'', ''g.rep''] (Some replay_ab));
        h1 = snd (handle new_handler [''replays'', ''a'', ''g.rep''] (Some 4096) False)
    in delivered h1 = [[''replays'', ''a'', ''g.rep'']] \<and>
       process_replay m1 [''replays'', ''b'', ''g.rep''] (Some replay_ab) = (Inr None, m1) \<and>
       handle h1 [''replays'', ''b'', ''g.rep''] (Some 4096) False = (Inr (), h1))"
proof -
  let ?p1 = "[''replays'', ''a'', ''g.rep'']" and ?p2 = "[''replays'', ''b'', ''g.rep'']"
  have n: "path_name ?p2 = path_name ?p1"
    by (simp add: path_name_def)
  have pr: "process_replay new_manager ?p1 (Some replay_ab)
      = (fst (process_replay new_manager ?p1 (Some replay_ab)),
         snd (process_replay new_manager ?p1 (Some replay_ab)))"
    by simp
  have sfx: "lower (suffix ?p1) = ''.rep''"
    by code_simp
  have sz: "0 < (4096::nat)"
    by simp
  have hd: "handle new_handler ?p1 (Some 4096) False
      = (fst (handle new_handler ?p1 (Some 4096) False),
         snd (handle new_handler ?p1 (Some 4096) False))"
    by simp
  have dl: "delivered (snd (handle new_handler ?p1 (Some 4096) False)) = [?p1]"
    using sfx by (simp add: handle_def new_handler_def Let_def)
  from dedup_by_basename [OF n pr sfx sz hd, of "Some replay_ab" "Some 4096" False] dl
  show ?thesis by (simp add: Let_def)
qed

subsection \<open>C8: one delivery per file name\<close>

lemma on_event_step:
  assumes "on_event h ev = (r, h1)"
  shows "h1 = h \<or>
         (r = Inr () \<and> path_name (src_path ev) \<notin> processed h \<and>
          processed h1 = insert (path_name (src_path ev)) (processed h) \<and>
          delivered h1 = delivered h @ [src_path ev] \<and>
          failures h1 = (if callback_raises ev then failures h @ [src_path ev] else failures h))"
proof (cases "is_directory ev")
  case True
  with assms show ?thesis by (simp add: on_event_def)
next
  case False
  with assms have "handle h (src_path ev) (size_after_settle ev) (callback_raises ev) = (r, h1)"
    by (simp add: on_event_def)
  from handle_step [OF this] show ?thesis .
qed

lemma dispatch_trace:
  assumes "dispatch h evs = (r, h1)"
  shows "\<exists>new. delivered h1 = delivered h @ new \<and> distinct (map path_name new) \<and>
           set (map path_name new) \<inter> processed h = {} \<and>
           processed h1 = processed h \<union> set (map path_name new) \<and>
           set (failures h1) \<subseteq> set (failures h) \<union> set new"
  using assms
proof (induction evs arbitrary: h)
  case Nil
  then have "delivered h1 = delivered h @ [] \<and> distinct (map path_name []) \<and>
           set (map path_name []) \<inter> processed h = {} \<and>
           processed h1 = processed h \<union> set (map path_name []) \<and>
           set (failures h1) \<subseteq> set (failures h) \<union> set []"
    by simp
  then show ?case by (rule exI)
next
  case (Cons ev evs)
  obtain r0 h0 where ev: "on_event h ev = (r0, h0)"
    by (cases "on_event h ev")
  note st = on_event_step [OF ev]
  show ?case
  proof (cases r0)
    case (Inl e)
    with st have "h0 = h" by auto
    moreover from Cons.prems ev Inl have "h1 = h0" by simp
    ultimately have "delivered h1 = delivered h @ [] \<and> distinct (map path_name []) \<and>
           set (map path_name []) \<inter> processed h = {} \<and>
           processed h1 = processed h \<union> set (map path_name []) \<and>
           set (failures h1) \<subseteq> set (failures h) \<union> set []"
      by simp
    then show ?thesis by (rule exI)
  next
    case (Inr u)
    with Cons.prems ev have "dispatch h0 evs = (r, h1)" by simp
    from Cons.IH [OF this] obtain new where new:
      "delivered h1 = delivered h0 @ new" "distinct (map path_name new)"
      "set (map path_name new) \<inter> processed h0 = {}"
      "processed h1 = processed h0 \<union> set (map path_name new)"
      "set (failures h1) \<subseteq> set (failures h0) \<union> set new"
      by blast
    show ?thesis
    proof (cases "h0 = h")
      case True
      with new show ?thesis by blast
    next
      case False
      with st have s: "path_name (src_path ev) \<notin> processed h"
        "processed h0 = insert (path_name (src_path ev)) (processed h)"
        "delivered h0 = delivered h @ [src_path ev]"
        "set (failures h0) \<subseteq> set (failures h) \<union> {src_path ev}"
        by (auto split: if_splits)
      have "delivered h1 = delivered h @ (src_path ev # new) \<and>
            distinct (map path_name (src_path ev # new)) \<and>
            set (map path_name (src_path ev # new)) \<inter> processed h = {} \<and>
            processed h1 = processed h \<union> set (map path_name (src_path ev # new)) \<and>
            set (failures h1) \<subseteq> set (failures h) \<union> set (src_path ev # new)"
        using new s by auto
      then show ?thesis by (rule exI)
    qed
  qed
qed

lemma dispatch_no_crash:
  assumes "list_all (\<lambda>ev. size_after_settle ev \<noteq> None) evs"
  shows "fst (dispatch h evs) = Inr ()"
  using assms
proof (induction evs arbitrary: h)
  case Nil
  then show ?case by simp
next
  case (Cons ev evs)
  then obtain sz where "size_after_settle ev = Some sz" by auto
  then have "fst (on_event h ev) = Inr ()"
    by (simp add: on_event_def handle_def Let_def)
  then obtain h0 where "on_event h ev = (Inr (), h0)"
    by (cases "on_event h ev") auto
  with Cons show ?case by simp
qed

text \<open>
  C8. Let the handler, fresh at the start, have taken a first run of events without an
  exception, and then take any further events. The processed-set only grows. The callback
  invocations of the further events are on names that were not in the processed-set
  before them, so over the whole life no name is delivered twice, and the processed-set
  is the set of the delivered names. A path on which the callback raised stays in the
  processed-set. An exception leaves the handler only when \<^verbatim>\<open>stat\<close> fails, never because
  the callback raised.
\<close>

theorem watcher_one_shot:
  assumes "dispatch new_handler evs1 = (Inr (), h1)" and "dispatch h1 evs2 = (r, h2)"
  shows "processed h1 \<subseteq> processed h2 \<and>
         (\<exists>new. delivered h2 = delivered h1 @ new \<and>
                 set (map path_name new) \<inter> processed h1 = {}) \<and>
         distinct (map path_name (delivered h2)) \<and>
         set (map path_name (delivered h2)) = processed h2 \<and>
         set (map path_name (failures h2)) \<subseteq> processed h2 \<and>
         (list_all (\<lambda>ev. size_after_settle ev \<noteq> None) evs2 \<longrightarrow> r = Inr ())"
proof -
  from dispatch_trace [OF assms(1)] obtain new1 where n1:
    "delivered h1 = new1" "distinct (map path_name new1)"
    "processed h1 = set (map path_name new1)" "set (failures h1) \<subseteq> set new1"
    by (auto simp: new_handler_def)
  from dispatch_trace [OF assms(2)] obtain new2 where n2:
    "delivered h2 = delivered h1 @ new2" "distinct (map path_name new2)"
    "set (map path_name new2) \<inter> processed h1 = {}"
    "processed h2 = processed h1 \<union> set (map path_name new2)"
    "set (failures h2) \<subseteq> set (failures h1) \<union> set new2"
    by blast
  have "processed h1 \<subseteq> processed h2"
    using n2(4) by simp
  moreover have "\<exists>new. delivered h2 = delivered h1 @ new \<and>
                 set (map path_name new) \<inter> processed h1 = {}"
    using n2(1,3) by blast
  moreover have "distinct (map path_name (delivered h2))"
    using n1 n2 by auto
  moreover have "set (map path_name (delivered h2)) = processed h2"
    using n1 n2 by auto
  moreover have "set (map path_name (failures h2)) \<subseteq> processed h2"
  proof -
    have "set (failures h2) \<subseteq> set (delivered h2)"
      using n1 n2 by auto
    then have "path_name ` set (failures h2) \<subseteq> path_name ` set (delivered h2)"
      by (rule image_mono)
    then show ?thesis using n1 n2 by auto
  qed
  moreover have "list_all (\<lambda>ev. size_after_settle ev \<noteq> None) evs2 \<longrightarrow> r = Inr ()"
    using dispatch_no_crash [of evs2 h1] assms(2) by simp
  ultimately show ?thesis by blast
qed

text \<open>
  The theorem on a file created empty, then filled (the callback raising on it), then
  modified twice more: one delivery, no retry, no crash.
\<close>

theorem watcher_one_shot_witness:
  "(let p = [''replays'', ''g.rep''];
        created = \<lparr>src_path = p, is_directory = False, size_after_settle = Some 0,
                    callback_raises = False\<rparr>;
        filled = \<lparr>src_path = p, is_directory = False, size_after_settle = Some 4096,
                   callback_raises = True\<rparr>;
        again = \<lparr>src_path = p, is_directory = False, size_after_settle = Some 4096,
                  callback_raises = False\<rparr>;
        h1 = snd (dispatch new_handler [created, filled]);
        h2 = snd (dispatch h1 [again, again])
    in dispatch new_handler [created, filled] = (Inr (), h1) \<and>
       dispatch h1 [again, again] = (Inr (), h2) \<and>
       delivered h1 = [p] \<and> failures h1 = [p] \<and> processed h1 = {''g.rep''} \<and>
       delivered h2 = [p] \<and> processed h2 = {''g.rep''})"
proof -
  let ?p = "[''replays'', ''g.rep'']"
  let ?created = "\<lparr>src_path = ?p, is_directory = False, size_after_settle = Some 0,
                    callback_raises = False\<rparr>"
  let ?filled = "\<lparr>src_path = ?p, is_directory = False, size_after_settle = Some 4096,
                   callback_raises = True\<rparr>"
  let ?again = "\<lparr>src_path = ?p, is_directory = False, size_after_settle = Some 4096,
                  callback_raises = False\<rparr>"
  let ?h1 = "snd (dispatch new_handler [?created, ?filled])"
  let ?h2 = "snd (dispatch ?h1 [?again, ?again])"
  have sfx: "lower (suffix ?p) = ''.rep''"
    by code_simp
  have nm: "path_name ?p = ''g.rep''"
    by (simp add: path_name_def)
  have h1: "?h1 = \<lparr>processed = {''g.rep''}, delivered = [?p], failures = [?p]\<rparr>"
    using sfx nm by (simp add: on_event_def handle_def new_handler_def Let_def)
  have d1: "dispatch new_handler [?created, ?filled] = (Inr (), ?h1)"
    using sfx nm by (simp add: on_event_def handle_def new_handler_def Let_def)
  have d2: "dispatch ?h1 [?again, ?again] = (fst (dispatch ?h1 [?again, ?again]), ?h2)"
    by simp
  have ok: "list_all (\<lambda>ev. size_after_settle ev \<noteq> None) [?again, ?again]"
    by simp
  from watcher_one_shot [OF d1 d2] ok
  have r: "fst (dispatch ?h1 [?again, ?again]) = Inr ()"
    and sub: "\<exists>new. delivered ?h2 = delivered ?h1 @ new \<and>
                 set (map path_name new) \<inter> processed ?h1 = {}"
    and eq: "set (map path_name (delivered ?h2)) = processed ?h2"
    and dist: "distinct (map path_name (delivered ?h2))"
    by blast+
  have h2: "?h2 = ?h1"
    unfolding h1 using sfx nm by (simp add: on_event_def handle_def Let_def)
  have d2': "dispatch ?h1 [?again, ?again] = (Inr (), ?h2)"
    using r by (simp add: prod_eq_iff)
  have a: "delivered ?h1 = [?p]" "failures ?h1 = [?p]" "processed ?h1 = {''g.rep''}"
    using h1 by simp_all
  have b: "delivered ?h2 = [?p]" "processed ?h2 = {''g.rep''}"
    by (simp_all only: h2 a)
  show ?thesis
    unfolding Let_def by (intro conjI d1 d2' a b)
qed

section \<open>Properties of the aggregation queries\<close>

subsection \<open>C6: the record against one opponent\<close>




text \<open>
  The aggregation example of the specification, asked through an alias of Bob: three
  wins, two losses, five games.
\<close>

lemma get_record_vs_example:
  "(let r = get_record_vs (add_alias db_alice ''Bob'' ''Bobby'') ''Bobby''
    in opponent r = ''Bob'' \<and> wins r = 3 \<and> losses r = 2 \<and> total r = 5)"
  by code_simp

subsection \<open>C7: the summaries of all opponents\<close>

lemma first_played_snoc:
  "first_played (gs @ [g]) = (if first_played gs = None then played_at g else first_played gs)"
proof (cases "filter (\<lambda>t. t \<noteq> None) (map played_at gs)")
  case Nil
  then show ?thesis by (simp add: first_played_def)
next
  case (Cons t ts)
  then have "t \<in> set (filter (\<lambda>t. t \<noteq> None) (map played_at gs))" by simp
  then obtain y where "t = Some y" by auto
  with Cons show ?thesis by (simp add: first_played_def)
qed

lemma stat_of_snoc_other:
  assumes "map_option fst (opponent_of names g) \<noteq> Some opp"
  shows "stat_of names (gs @ [g]) opp = stat_of names gs opp"
  using assms by (auto simp: stat_of_def)

lemma stat_of_snoc_same:
  assumes "opponent_of names g = Some (opp, w)"
  shows "stat_of names (gs @ [g]) opp =
     (let s0 = stat_of names gs opp;
          s1 = (if w then s0\<lparr>s_wins := s_wins s0 + 1\<rparr> else s0\<lparr>s_losses := s_losses s0 + 1\<rparr>)
      in if s_last_played s1 = None then s1\<lparr>s_last_played := played_at g\<rparr> else s1)"
  using assms by (simp add: stat_of_def first_played_snoc Let_def)

lemma stat_of_unseen:
  assumes "\<forall>g\<in>set gs. map_option fst (opponent_of names g) \<noteq> Some opp"
  shows "stat_of names gs opp = \<lparr>s_wins = 0, s_losses = 0, s_last_played = None\<rparr>"
proof -
  have "filter (\<lambda>g. map_option fst (opponent_of names g) = Some opp) gs = []"
    using assms by (simp add: filter_empty_conv)
  moreover have "filter (\<lambda>g. opponent_of names g = Some (opp, b)) gs = []" for b
    using assms by (auto simp: filter_empty_conv)
  ultimately show ?thesis by (simp add: stat_of_def first_played_def)
qed

lemma stats_loop_invariant:
  "distinct (map fst (foldl (stats_step names) [] gs)) \<and>
   (\<forall>opp. map_of (foldl (stats_step names) [] gs) opp =
      (if \<exists>g\<in>set gs. map_option fst (opponent_of names g) = Some opp
       then Some (stat_of names gs opp) else None))"
proof (induction gs rule: rev_induct)
  case Nil
  then show ?case by simp
next
  case (snoc g gs)
  let ?stats = "foldl (stats_step names) [] gs"
  from snoc have dist: "distinct (map fst ?stats)"
    and look: "\<And>opp. map_of ?stats opp =
      (if \<exists>g\<in>set gs. map_option fst (opponent_of names g) = Some opp
       then Some (stat_of names gs opp) else None)"
    by simp_all
  show ?case
  proof (cases "opponent_of names g")
    case None
    then have "foldl (stats_step names) [] (gs @ [g]) = ?stats"
      by (simp add: stats_step_def)
    moreover have "stat_of names (gs @ [g]) opp = stat_of names gs opp" for opp
      using None by (simp add: stat_of_snoc_other)
    ultimately show ?thesis using dist look None by simp
  next
    case (Some ow)
    obtain o' w where ow: "ow = (o', w)" by (cases ow)
    have s0: "(case map_of ?stats o' of
                None \<Rightarrow> \<lparr>s_wins = 0, s_losses = 0, s_last_played = None\<rparr>
              | Some s \<Rightarrow> s) = stat_of names gs o'"
      using look [of o'] by (auto simp: stat_of_unseen)
    have step: "foldl (stats_step names) [] (gs @ [g])
        = AList.update o' (stat_of names (gs @ [g]) o') ?stats"
      using Some ow s0 by (simp add: stats_step_def stat_of_snoc_same Let_def)
    have "distinct (map fst (foldl (stats_step names) [] (gs @ [g])))"
      unfolding step using dist by (rule distinct_update)
    moreover have "map_of (foldl (stats_step names) [] (gs @ [g])) opp =
      (if \<exists>g\<in>set (gs @ [g]). map_option fst (opponent_of names g) = Some opp
       then Some (stat_of names (gs @ [g]) opp) else None)" for opp
    proof (cases "opp = o'")
      case True
      with Some ow show ?thesis unfolding step by (simp add: update_conv')
    next
      case False
      with Some ow have "map_option fst (opponent_of names g) \<noteq> Some opp" by simp
      with False show ?thesis
        unfolding step by (simp add: update_conv' look stat_of_snoc_other)
    qed
    ultimately show ?thesis by blast
  qed
qed

lemma sort_key_alist:
  assumes "distinct (map fst al)"
  shows "sort_key fst al = map (\<lambda>k. (k, the (map_of al k))) (sort (map fst al))"
proof -
  have "map (\<lambda>k. (k, the (map_of al k))) (sort (map fst al))
      = map (\<lambda>k. (k, the (map_of al k))) (map fst (sort_key fst al))"
  proof -
    have "sort (map fst al) = map fst (sort_key fst al)"
      by (rule properties_for_sort) simp_all
    then show ?thesis by simp
  qed
  also have "\<dots> = map (\<lambda>e. (fst e, the (map_of al (fst e)))) (sort_key fst al)"
    by (simp add: o_def)
  also have "\<dots> = map (\<lambda>e. e) (sort_key fst al)"
  proof (rule map_cong [OF refl])
    fix e assume "e \<in> set (sort_key fst al)"
    then have "e \<in> set al" by simp
    moreover obtain k v where "e = (k, v)" by (cases e)
    ultimately have "map_of al (fst e) = Some (snd e)"
      using assms by simp
    then show "(fst e, the (map_of al (fst e))) = e" by simp
  qed
  finally show ?thesis by simp
qed


lemma first_played_sorted:
  assumes "sorted (rev (map played_at gs))" and "gs \<noteq> []"
  shows "first_played gs = played_at (hd gs)"
proof -
  from assms(2) obtain g gs' where gs: "gs = g # gs'" by (cases gs) auto
  with assms(1) have le: "\<forall>x\<in>set gs'. played_at x \<le> played_at g"
    by (auto simp: sorted_append)
  show ?thesis
  proof (cases "played_at g")
    case None
    with le have "\<forall>x\<in>set gs'. played_at x = None"
      by (auto dest: less_eq_option_None_is_None)
    then have "filter (\<lambda>t. t \<noteq> None) (map played_at gs') = []"
      by (auto simp: filter_empty_conv)
    with None gs show ?thesis by (simp add: first_played_def)
  next
    case (Some t)
    with gs show ?thesis by (simp add: first_played_def)
  qed
qed

lemma sorted_desc_filter:
  assumes "sorted (rev (map key xs))"
  shows "sorted (rev (map key (filter P xs)))"
proof -
  have "sorted (map key (rev xs))"
    using assms by (simp add: rev_map)
  then have "sorted (map key (filter P (rev xs)))"
    by (rule sorted_filter)
  then show ?thesis by (simp add: rev_map rev_filter)
qed

lemma length_filter_order_by_desc:
  "length (filter P (order_by_desc key xs)) = length (filter P xs)"
proof -
  have "filter P (order_by_desc key xs) = rev (sort_key key (filter P (rev xs)))"
    by (simp add: order_by_desc_def rev_filter [symmetric] filter_sort)
  then show ?thesis by (simp add: rev_filter [symmetric])
qed

lemma set_map_filter: "set (List.map_filter f xs) = {y. \<exists>x\<in>set xs. f x = Some y}"
  by (induction xs) (auto simp: map_filter_simps split: option.splits)

lemma set_order_by_desc: "set (order_by_desc key xs) = set xs"
  by (simp add: order_by_desc_def)

lemma opponent_of_sides:
  assumes "opponent_of names g = Some (opp, w)"
  shows "in_names (winner_name g) names \<noteq> in_names (loser_name g) names \<and>
         (if w then loser_name g else winner_name g) = Some opp"
  using assms by (auto simp: opponent_of_def split: if_splits option.splits)

lemma all_opponents_eq:
  fixes d :: database
  defines "names \<equiv> set (get_my_names d)"
  defines "scan \<equiv> order_by_desc played_at (games d)"
  shows "get_all_opponents d =
         map (\<lambda>opp. \<lparr>sm_opponent = opp,
               sm_wins = length (filter (\<lambda>g. opponent_of names g = Some (opp, True)) (games d)),
               sm_losses = length (filter (\<lambda>g. opponent_of names g = Some (opp, False)) (games d)),
               sm_total = length (filter (\<lambda>g. opponent_of names g = Some (opp, True)) (games d))
                        + length (filter (\<lambda>g. opponent_of names g = Some (opp, False)) (games d)),
               sm_last_played = played_at (hd (filter
                   (\<lambda>g. map_option fst (opponent_of names g) = Some opp) scan))\<rparr>)
             (sort (remdups (List.map_filter (\<lambda>g. map_option fst (opponent_of names g)) (games d))))"
  (is "_ = map ?mk (sort (remdups ?L))")
proof (cases "names = {}")
  case True
  then have "opponent_of names g = None" for g
    by (simp add: opponent_of_def in_names_def split: option.splits)
  then have "?L = []"
    by (simp add: map_filter_def)
  moreover have "get_all_opponents d = []"
    using True by (simp add: get_all_opponents_def names_def)
  ultimately show ?thesis by simp
next
  case False
  define stats where "stats = foldl (stats_step names) [] scan"
  have dist: "distinct (map fst stats)"
    and look: "\<And>opp. map_of stats opp =
      (if \<exists>g\<in>set scan. map_option fst (opponent_of names g) = Some opp
       then Some (stat_of names scan opp) else None)"
    using stats_loop_invariant [of names scan] by (simp_all add: stats_def)
  have gao: "get_all_opponents d =
      map (\<lambda>e. \<lparr>sm_opponent = fst e, sm_wins = s_wins (snd e), sm_losses = s_losses (snd e),
                 sm_total = s_wins (snd e) + s_losses (snd e),
                 sm_last_played = s_last_played (snd e)\<rparr>) (sort_key fst stats)"
    using False
    by (simp add: get_all_opponents_def Let_def names_def scan_def stats_def case_prod_beta)
  have setL: "set ?L = {opp. \<exists>g\<in>set (games d). map_option fst (opponent_of names g) = Some opp}"
    by (rule set_map_filter)
  have "set (map fst stats) = dom (map_of stats)"
    by (simp add: dom_map_of_conv_image_fst)
  also have "\<dots> = {opp. \<exists>g\<in>set scan. map_option fst (opponent_of names g) = Some opp}"
    by (auto simp: dom_def look split: if_splits)
  also have "\<dots> = set ?L"
    by (simp add: setL scan_def set_order_by_desc)
  finally have keys_set: "set (map fst stats) = set ?L" .
  have keys: "sort (map fst stats) = sort (remdups ?L)"
    by (rule sorted_distinct_set_unique) (use dist keys_set in simp_all)
  have "map (\<lambda>e. \<lparr>sm_opponent = fst e, sm_wins = s_wins (snd e), sm_losses = s_losses (snd e),
                 sm_total = s_wins (snd e) + s_losses (snd e),
                 sm_last_played = s_last_played (snd e)\<rparr>) (sort_key fst stats)
      = map (\<lambda>k. \<lparr>sm_opponent = k, sm_wins = s_wins (the (map_of stats k)),
                 sm_losses = s_losses (the (map_of stats k)),
                 sm_total = s_wins (the (map_of stats k)) + s_losses (the (map_of stats k)),
                 sm_last_played = s_last_played (the (map_of stats k))\<rparr>) (sort (remdups ?L))"
    by (simp add: sort_key_alist [OF dist] keys o_def)
  also have "\<dots> = map ?mk (sort (remdups ?L))"
  proof (rule map_cong [OF refl])
    fix k assume "k \<in> set (sort (remdups ?L))"
    then have k: "\<exists>g\<in>set scan. map_option fst (opponent_of names g) = Some k"
      by (simp add: setL scan_def set_order_by_desc)
    then have st: "the (map_of stats k) = stat_of names scan k"
      by (simp add: look)
    let ?gs = "filter (\<lambda>g. map_option fst (opponent_of names g) = Some k) scan"
    have "?gs \<noteq> []"
      using k by (simp add: filter_empty_conv)
    moreover have "sorted (rev (map played_at ?gs))"
      unfolding scan_def by (intro sorted_desc_filter sorted_order_by_desc)
    ultimately have lp: "first_played ?gs = played_at (hd ?gs)"
      by (intro first_played_sorted)
    show "\<lparr>sm_opponent = k, sm_wins = s_wins (the (map_of stats k)),
                 sm_losses = s_losses (the (map_of stats k)),
                 sm_total = s_wins (the (map_of stats k)) + s_losses (the (map_of stats k)),
                 sm_last_played = s_last_played (the (map_of stats k))\<rparr> = ?mk k"
    proof -
      have w: "s_wins (stat_of names scan k)
          = length (filter (\<lambda>g. opponent_of names g = Some (k, True)) (games d))"
        by (simp add: stat_of_def scan_def length_filter_order_by_desc)
      have l: "s_losses (stat_of names scan k)
          = length (filter (\<lambda>g. opponent_of names g = Some (k, False)) (games d))"
        by (simp add: stat_of_def scan_def length_filter_order_by_desc)
      have p: "s_last_played (stat_of names scan k) = played_at (hd ?gs)"
        using lp by (simp add: stat_of_def)
      show ?thesis
        unfolding st by (simp only: w l p)
    qed
  qed
  finally show ?thesis unfolding gao .
qed

text \<open>
  C7. \<^verbatim>\<open>get_all_opponents\<close> returns one summary for each opponent of a game that the
  loop counts, in ascending order of the opponent's name and without repetition. The wins
  and losses of an opponent are the numbers of stored games the loop counts as a win or
  a loss against that name, the total is their sum, and last_played is the played-at of
  the opponent's first game in the scan in descending order of played-at. A game is
  counted only when exactly one of its winner and loser is a local-user name, the other
  side being the opponent.
\<close>

theorem get_all_opponents_correct:
  "(let names = set (get_my_names d);
        scan = order_by_desc played_at (games d);
        opp_of = (\<lambda>g. map_option fst (opponent_of names g));
        won = (\<lambda>opp. length (filter (\<lambda>g. opponent_of names g = Some (opp, True)) (games d)));
        lost = (\<lambda>opp. length (filter (\<lambda>g. opponent_of names g = Some (opp, False)) (games d)))
    in get_all_opponents d =
         map (\<lambda>opp. \<lparr>sm_opponent = opp, sm_wins = won opp, sm_losses = lost opp,
                      sm_total = won opp + lost opp,
                      sm_last_played = played_at (hd (filter (\<lambda>g. opp_of g = Some opp) scan))\<rparr>)
             (sort (remdups (List.map_filter opp_of (games d)))) \<and>
       sorted (map sm_opponent (get_all_opponents d)) \<and>
       distinct (map sm_opponent (get_all_opponents d)) \<and>
       (\<forall>g opp w. opponent_of names g = Some (opp, w) \<longrightarrow>
          in_names (winner_name g) names \<noteq> in_names (loser_name g) names \<and>
          (if w then loser_name g else winner_name g) = Some opp))"
proof -
  note eq = all_opponents_eq [of d]
  have "map sm_opponent (get_all_opponents d)
      = sort (remdups (List.map_filter (\<lambda>g. map_option fst (opponent_of (set (get_my_names d)) g))
          (games d)))"
    unfolding eq by (simp add: o_def)
  then have "sorted (map sm_opponent (get_all_opponents d))"
    and "distinct (map sm_opponent (get_all_opponents d))"
    by simp_all
  with eq opponent_of_sides show ?thesis
    unfolding Let_def by blast
qed

text \<open>
  The theorem on the aggregation example of the specification: Bob with three wins and
  two losses, Carol with one win, in alphabetical order.
\<close>

theorem get_all_opponents_correct_witness:
  "opponent_of (set (get_my_names db_alice))
       (game 1 ''1.rep'' (Some ''2026-02-01 10:00:00'') (Some ''Alice'') (Some ''Bob''))
     = Some (''Bob'', True) \<and>
   in_names (Some ''Alice'') (set (get_my_names db_alice))
     \<noteq> in_names (Some ''Bob'') (set (get_my_names db_alice)) \<and>
   get_all_opponents db_alice =
     [\<lparr>sm_opponent = ''Bob'', sm_wins = 3, sm_losses = 2, sm_total = 5,
        sm_last_played = Some ''2026-02-06 10:00:00''\<rparr>,
      \<lparr>sm_opponent = ''Carol'', sm_wins = 1, sm_losses = 0, sm_total = 1,
        sm_last_played = Some ''2026-02-03 10:00:00''\<rparr>]"
proof -
  let ?names = "set (get_my_names db_alice)"
  let ?g = "game 1 ''1.rep'' (Some ''2026-02-01 10:00:00'') (Some ''Alice'') (Some ''Bob'')"
  have h: "opponent_of ?names ?g = Some (''Bob'', True)"
    by code_simp
  from get_all_opponents_correct [of db_alice]
  have imp: "\<forall>g opp w. opponent_of ?names g = Some (opp, w) \<longrightarrow>
          in_names (winner_name g) ?names \<noteq> in_names (loser_name g) ?names \<and>
          (if w then loser_name g else winner_name g) = Some opp"
    and eq: "get_all_opponents db_alice =
         map (\<lambda>opp. \<lparr>sm_opponent = opp,
               sm_wins = length (filter (\<lambda>g. opponent_of ?names g = Some (opp, True)) (games db_alice)),
               sm_losses = length (filter (\<lambda>g. opponent_of ?names g = Some (opp, False)) (games db_alice)),
               sm_total = length (filter (\<lambda>g. opponent_of ?names g = Some (opp, True)) (games db_alice))
                        + length (filter (\<lambda>g. opponent_of ?names g = Some (opp, False)) (games db_alice)),
               sm_last_played = played_at (hd (filter
                   (\<lambda>g. map_option fst (opponent_of ?names g) = Some opp)
                   (order_by_desc played_at (games db_alice))))\<rparr>)
             (sort (remdups (List.map_filter (\<lambda>g. map_option fst (opponent_of ?names g))
                (games db_alice))))"
    unfolding Let_def by blast+
  from imp h have "in_names (winner_name ?g) ?names \<noteq> in_names (loser_name ?g) ?names"
    by blast
  then have sides: "in_names (Some ''Alice'') ?names \<noteq> in_names (Some ''Bob'') ?names"
    by (simp add: game_def)
  have "map (\<lambda>opp. \<lparr>sm_opponent = opp,
               sm_wins = length (filter (\<lambda>g. opponent_of ?names g = Some (opp, True)) (games db_alice)),
               sm_losses = length (filter (\<lambda>g. opponent_of ?names g = Some (opp, False)) (games db_alice)),
               sm_total = length (filter (\<lambda>g. opponent_of ?names g = Some (opp, True)) (games db_alice))
                        + length (filter (\<lambda>g. opponent_of ?names g = Some (opp, False)) (games db_alice)),
               sm_last_played = played_at (hd (filter
                   (\<lambda>g. map_option fst (opponent_of ?names g) = Some opp)
                   (order_by_desc played_at (games db_alice))))\<rparr>)
             (sort (remdups (List.map_filter (\<lambda>g. map_option fst (opponent_of ?names g))
                (games db_alice))))
      = [\<lparr>sm_opponent = ''Bob'', sm_wins = 3, sm_losses = 2, sm_total = 5,
           sm_last_played = Some ''2026-02-06 10:00:00''\<rparr>,
         \<lparr>sm_opponent = ''Carol'', sm_wins = 1, sm_losses = 0, sm_total = 1,
           sm_last_played = Some ''2026-02-03 10:00:00''\<rparr>]"
    by code_simp
  with eq have "get_all_opponents db_alice =
     [\<lparr>sm_opponent = ''Bob'', sm_wins = 3, sm_losses = 2, sm_total = 5,
        sm_last_played = Some ''2026-02-06 10:00:00''\<rparr>,
      \<lparr>sm_opponent = ''Carol'', sm_wins = 1, sm_losses = 0, sm_total = 1,
        sm_last_played = Some ''2026-02-03 10:00:00''\<rparr>]"
    by (rule trans)
  with h sides show ?thesis by (intro conjI)
qed

end
